theory Spec2Isabelle
  imports Main
begin

section \<open>Strings and characters\<close>

text \<open>
  A JavaScript string is modelled as a \<^typ>\<open>string\<close>, one \<^typ>\<open>char\<close> per UTF-16 code
  unit; the model covers the strings whose code units are below 256. \<open>value[i]\<close> and
  \<open>.length\<close> count code units and \<open>for ... of\<close> walks code points; on the strings of the
  model a code point is one code unit, so both cut a string the same way. A string with
  a character outside the Basic Multilingual Plane (one code point, two code units) is
  outside the model.
\<close>

definition code :: "char \<Rightarrow> nat" where
  "code c = of_char c"

definition between :: "char \<Rightarrow> char \<Rightarrow> char \<Rightarrow> bool" where
  "between lo hi c \<longleftrightarrow> code lo \<le> code c \<and> code c \<le> code hi"

definition isDigit :: "char \<Rightarrow> bool" where
  "isDigit c \<longleftrightarrow> between CHR ''0'' CHR ''9'' c"

definition isLower :: "char \<Rightarrow> bool" where
  "isLower c \<longleftrightarrow> between CHR ''a'' CHR ''z'' c"

definition isUpper :: "char \<Rightarrow> bool" where
  "isUpper c \<longleftrightarrow> between CHR ''A'' CHR ''Z'' c"

definition isLetter :: "char \<Rightarrow> bool" where
  "isLetter c \<longleftrightarrow> isLower c \<or> isUpper c"

definition isAlnum :: "char \<Rightarrow> bool" where
  "isAlnum c \<longleftrightarrow> isLetter c \<or> isDigit c"

definition isHex :: "char \<Rightarrow> bool" where
  "isHex c \<longleftrightarrow> isDigit c \<or> between CHR ''a'' CHR ''f'' c \<or> between CHR ''A'' CHR ''F'' c"

text \<open>
  \<open>toLowerCase\<close> and \<open>toUpperCase\<close> of a one-unit string. The source applies them only to
  characters that a class of ASCII letters and digits has accepted, where they shift the
  letter by 32 and leave every other character alone.
\<close>

definition toLowerCase :: "char \<Rightarrow> string" where
  "toLowerCase c = (if isUpper c then [char_of (code c + 32)] else [c])"

definition toUpperCase :: "char \<Rightarrow> string" where
  "toUpperCase c = (if isLower c then [char_of (code c - 32)] else [c])"

section \<open>The mask engine (\<open>InputMask\<close>)\<close>

subsection \<open>Data\<close>

text \<open>
  \<open>MaskToken\<close>: \<open>pattern\<close> is a regular expression that the code only ever \<open>test\<close>s on a
  one-character string, so it is the set of characters it accepts (the patterns of the
  source have no flag \<open>g\<close> or \<open>y\<close>, and \<open>test\<close> keeps no state); \<open>transform\<close> maps the
  accepted character to the string appended to the result.
\<close>

record MaskToken =
  pattern :: "char \<Rightarrow> bool"
  optional :: "bool option"
  transform :: "(char \<Rightarrow> string) option"

type_synonym token_table = "char \<rightharpoonup> MaskToken"

text \<open>The field \<open>mask: string | string[]\<close>.\<close>

datatype mask_field = Single string | Several "string list"

text \<open>\<open>MaskOptions\<close>; a field marked \<open>?\<close> in the source is \<open>None\<close> when it is absent.\<close>

record MaskOptions =
  mo_mask :: mask_field
  mo_tokens :: "token_table option"
  mo_placeholder :: "string option"
  mo_autoClear :: "bool option"
  mo_stripMask :: "bool option"
  mo_allowEmpty :: "bool option"

text \<open>The instance: \<open>this.options\<close> (every field present) and \<open>this.tokens\<close>.\<close>

record InputMask =
  options :: MaskOptions
  tokens :: token_table

datatype js_error = TypeError

text \<open>The second parameter of \<open>mask\<close>: \<open>maskOpt?: string | MaskOptions\<close>.\<close>

datatype mask_selector = Omitted | Name string | Explicit MaskOptions

text \<open>Truthiness of an optional boolean (\<open>undefined\<close> and \<open>false\<close> are falsy).\<close>

definition truthy :: "bool option \<Rightarrow> bool" where
  "truthy b \<longleftrightarrow> b = Some True"

definition token :: "(char \<Rightarrow> bool) \<Rightarrow> (char \<Rightarrow> string) option \<Rightarrow> MaskToken" where
  "token p t = \<lparr>pattern = p, optional = None, transform = t\<rparr>"

definition DEFAULT_TOKENS :: token_table where
  "DEFAULT_TOKENS = map_of
     [(CHR ''9'', token isDigit (Some (\<lambda>c. [c]))),
      (CHR ''a'', token isLetter (Some toLowerCase)),
      (CHR ''A'', token isLetter (Some toUpperCase)),
      (CHR ''*'', token isAlnum None),
      (CHR ''#'', token isAlnum None),
      (CHR ''x'', token isHex None),
      (CHR ''X'', token isHex (Some toUpperCase))]"

definition preset :: "string \<Rightarrow> token_table option \<Rightarrow> string option \<Rightarrow> bool option
    \<Rightarrow> bool option \<Rightarrow> MaskOptions" where
  "preset m t p ac ae =
     \<lparr>mo_mask = Single m, mo_tokens = t, mo_placeholder = p, mo_autoClear = ac,
      mo_stripMask = None, mo_allowEmpty = ae\<rparr>"

definition PRESET_MASKS :: "(string \<times> MaskOptions) list" where
  "PRESET_MASKS =
     [(''phone'', preset ''(999) 999-9999'' None None (Some True) None),
      (''phoneExt'', preset ''(999) 999-9999? x99999'' None None (Some False) None),
      (''phoneInt'', preset ''+9 (999) 999-9999'' None None (Some True) None),
      (''date'', preset ''99/99/9999'' None (Some ''mm/dd/yyyy'') None None),
      (''time'', preset ''99:99'' None (Some ''hh:mm'') None None),
      (''datetime'', preset ''99/99/9999 99:99'' None (Some ''mm/dd/yyyy hh:mm'') None None),
      (''ssn'', preset ''999-99-9999'' None None (Some True) None),
      (''creditCard'', preset ''9999 9999 9999 9999'' None None (Some True) None),
      (''currency'', preset ''$999,999,999.99'' None None (Some False) (Some True)),
      (''ipv4'', preset ''999.999.999.999'' None None (Some True) None),
      (''mac'', preset ''XX:XX:XX:XX:XX:XX''
                 (Some (map_of [(CHR ''X'', token isHex (Some toUpperCase))])) None None None)]"

text \<open>
  \<open>maskOpt in InputMask.PRESET_MASKS\<close> is also true of the property names that the
  table, an object literal, inherits from \<open>Object.prototype\<close>. The value found there has
  no \<open>mask\<close> field.
\<close>

definition inherited_keys :: "string list" where
  "inherited_keys =
     [''constructor'', ''hasOwnProperty'', ''isPrototypeOf'', ''propertyIsEnumerable'',
      ''toLocaleString'', ''toString'', ''valueOf'', ''__proto__'', ''__defineGetter__'',
      ''__defineSetter__'', ''__lookupGetter__'', ''__lookupSetter__'']"

subsection \<open>The constructor\<close>

definition InputMask_new :: "MaskOptions option \<Rightarrow> InputMask" where
  "InputMask_new opts =
     (let tks = (case opts of None \<Rightarrow> Map.empty
                 | Some ops \<Rightarrow> (case mo_tokens ops of None \<Rightarrow> Map.empty | Some t \<Rightarrow> t))
      in \<lparr>options =
            \<lparr>mo_mask = (case opts of None \<Rightarrow> Single [] | Some ops \<Rightarrow> mo_mask ops),
             mo_tokens = Some tks,
             mo_placeholder = Some (case opts of None \<Rightarrow> ''_''
                 | Some ops \<Rightarrow> (case mo_placeholder ops of None \<Rightarrow> ''_''
                     | Some p \<Rightarrow> if p = [] then ''_'' else p)),
             mo_autoClear = Some (case opts of None \<Rightarrow> True
                 | Some ops \<Rightarrow> (case mo_autoClear ops of None \<Rightarrow> True | Some b \<Rightarrow> b)),
             mo_stripMask = Some (case opts of None \<Rightarrow> False
                 | Some ops \<Rightarrow> (case mo_stripMask ops of None \<Rightarrow> False | Some b \<Rightarrow> b)),
             mo_allowEmpty = Some (case opts of None \<Rightarrow> False
                 | Some ops \<Rightarrow> (case mo_allowEmpty ops of None \<Rightarrow> False | Some b \<Rightarrow> b))\<rparr>,
          tokens = DEFAULT_TOKENS ++ tks\<rparr>)"

subsection \<open>\<open>processValue\<close>: one template\<close>

text \<open>
  The inner \<open>while\<close> loop of a placeholder, from cursor \<open>i\<close>: it ends with an accepted
  character (the text to append and the cursor behind it), with a rejected character
  outside optional mode (\<open>processValue\<close> returns at once), or with the input used up.
\<close>

datatype scan = Accepted string nat | Rejected | Exhausted nat

text \<open>\<open>token.transform ? token.transform(char) : char\<close>\<close>

definition transformed :: "MaskToken \<Rightarrow> char \<Rightarrow> string" where
  "transformed tok c = (case transform tok of Some f \<Rightarrow> f c | None \<Rightarrow> [c])"

function scanToken :: "string \<Rightarrow> MaskToken \<Rightarrow> bool \<Rightarrow> nat \<Rightarrow> scan" where
  "scanToken v tok isOptional i =
     (if i < length v then
        (if pattern tok (v ! i)
         then Accepted (transformed tok (v ! i)) (Suc i)
         else if \<not> isOptional then Rejected
         else scanToken v tok isOptional (Suc i))
      else Exhausted i)"
  by pat_completeness auto
termination
  by (relation "measure (\<lambda>(v, tok, isOptional, i). length v - i)") auto

declare scanToken.simps [simp del]

text \<open>\<open>options.autoClear ? "" : null\<close>; \<open>None\<close> is \<open>null\<close>.\<close>

definition cleared :: "MaskOptions \<Rightarrow> string option" where
  "cleared opts = (if truthy (mo_autoClear opts) then Some [] else None)"

text \<open>
  One round of the \<open>for\<close> loop over the template, on the loop variables \<open>result\<close>,
  \<open>valueIndex\<close> and \<open>isOptional\<close>: it returns from \<open>processValue\<close> or goes on to the next
  template character.
\<close>

datatype round = Return "string option" | Continue string nat bool

definition maskRound :: "string \<Rightarrow> token_table \<Rightarrow> MaskOptions \<Rightarrow> char
    \<Rightarrow> string \<Rightarrow> nat \<Rightarrow> bool \<Rightarrow> round" where
  "maskRound v tks opts maskChar result valueIndex isOptional =
     (if valueIndex \<ge> length v
      then Return (if isOptional then Some result else cleared opts)
      else if maskChar = CHR ''?'' then Continue result valueIndex True
      else (case tks maskChar of
              Some tok \<Rightarrow>
                (case scanToken v tok isOptional valueIndex of
                   Accepted out i \<Rightarrow> Continue (result @ out) i isOptional
                 | Rejected \<Rightarrow> Return (cleared opts)
                 | Exhausted i \<Rightarrow> Continue result i isOptional)
            | None \<Rightarrow>
                Continue (result @ [maskChar])
                  (if v ! valueIndex = maskChar then Suc valueIndex else valueIndex)
                  isOptional))"

fun rounds :: "string \<Rightarrow> token_table \<Rightarrow> MaskOptions \<Rightarrow> string
    \<Rightarrow> string \<Rightarrow> nat \<Rightarrow> bool \<Rightarrow> round" where
  "rounds v tks opts [] result valueIndex isOptional = Continue result valueIndex isOptional"
| "rounds v tks opts (maskChar # rest) result valueIndex isOptional =
     (case maskRound v tks opts maskChar result valueIndex isOptional of
        Return r \<Rightarrow> Return r
      | Continue result' valueIndex' isOptional' \<Rightarrow>
          rounds v tks opts rest result' valueIndex' isOptional')"

text \<open>
  \<open>processValue\<close>: the rounds over the whole template from the initial loop variables,
  then \<open>return result\<close> if no round has returned.
\<close>

definition processValue :: "string \<Rightarrow> string \<Rightarrow> token_table \<Rightarrow> MaskOptions
    \<Rightarrow> string option" where
  "processValue v template tks opts =
     (case rounds v tks opts template [] 0 False of
        Return r \<Rightarrow> r
      | Continue result valueIndex isOptional \<Rightarrow> Some result)"

subsection \<open>\<open>applyMask\<close>, \<open>mask\<close>, \<open>stripMask\<close>, \<open>isComplete\<close>\<close>

definition masksOf :: "MaskOptions \<Rightarrow> string list" where
  "masksOf opts = (case mo_mask opts of Single m \<Rightarrow> [m] | Several ms \<Rightarrow> ms)"

definition tokensOf :: "MaskOptions \<Rightarrow> token_table" where
  "tokensOf opts = (case mo_tokens opts of None \<Rightarrow> Map.empty | Some t \<Rightarrow> t)"

text \<open>The loop \<open>for (const pattern of masks)\<close>: the first result that is not \<open>null\<close>.\<close>

fun firstFit :: "string \<Rightarrow> token_table \<Rightarrow> MaskOptions \<Rightarrow> string list \<Rightarrow> string option" where
  "firstFit v tks opts [] = None"
| "firstFit v tks opts (p # ps) =
     (case processValue v p tks opts of
        Some r \<Rightarrow> Some r
      | None \<Rightarrow> firstFit v tks opts ps)"

text \<open>
  \<open>masks[0]\<close> of an empty array is \<open>undefined\<close>, and \<open>for (const maskChar of undefined)\<close>
  raises a \<open>TypeError\<close>.
\<close>

definition applyMask :: "InputMask \<Rightarrow> string \<Rightarrow> MaskOptions \<Rightarrow> js_error + string" where
  "applyMask this v opts =
     (let masks = masksOf opts;
          tks = tokens this ++ tokensOf opts
      in case firstFit v tks opts masks of
           Some r \<Rightarrow> Inr r
         | None \<Rightarrow>
             if truthy (mo_allowEmpty opts) \<and> v = [] then Inr []
             else (case masks of
                     [] \<Rightarrow> Inl TypeError
                   | p # _ \<Rightarrow>
                       Inr (case processValue v p tks opts of Some r \<Rightarrow> r | None \<Rightarrow> [])))"

definition InputMask_mask :: "InputMask \<Rightarrow> string \<Rightarrow> mask_selector \<Rightarrow> js_error + string" where
  "InputMask_mask this v maskOpt =
     (case maskOpt of
        Name n \<Rightarrow>
          (case map_of PRESET_MASKS n of
             Some p \<Rightarrow> applyMask this v p
           | None \<Rightarrow> if n \<in> set inherited_keys then Inl TypeError
                     else applyMask this v (options this))
      | Explicit opts \<Rightarrow> applyMask this v opts
      | Omitted \<Rightarrow> applyMask this v (options this))"

definition stripMask :: "InputMask \<Rightarrow> string \<Rightarrow> string" where
  "stripMask this v =
     (if \<not> truthy (mo_stripMask (options this)) then v else filter isAlnum v)"

definition isComplete :: "InputMask \<Rightarrow> string \<Rightarrow> bool" where
  "isComplete this v \<longleftrightarrow>
     list_ex (\<lambda>p. processValue v p (tokens this) (options this) \<noteq> None)
       (masksOf (options this))"

subsection \<open>Notions the properties of the mask engine are stated with\<close>

text \<open>
  A value conforms to a template when it has the template's length and, position by
  position, holds the literal itself or a character that the placeholder's token accepts
  and its transform leaves as it is.
\<close>

definition fits :: "token_table \<Rightarrow> char \<Rightarrow> char \<Rightarrow> bool" where
  "fits tks m c \<longleftrightarrow>
     (case tks m of None \<Rightarrow> c = m | Some tok \<Rightarrow> pattern tok c \<and> transformed tok c = [c])"

definition conforms :: "token_table \<Rightarrow> string \<Rightarrow> string \<Rightarrow> bool" where
  "conforms tks t v \<longleftrightarrow> list_all2 (fits tks) t v"

text \<open>
  The positions of a template (the optional marker is not one), and what the output may
  hold at a position: the literal, or the transform of an input character the token
  accepts.
\<close>

definition slots :: "string \<Rightarrow> string" where
  "slots t = filter (\<lambda>m. m \<noteq> CHR ''?'') t"

definition filled :: "string \<Rightarrow> token_table \<Rightarrow> char \<Rightarrow> string \<Rightarrow> bool" where
  "filled v tks m piece \<longleftrightarrow>
     (case tks m of
        None \<Rightarrow> piece = [m]
      | Some tok \<Rightarrow> list_ex (\<lambda>c. pattern tok c \<and> piece = transformed tok c) v)"

text \<open>The value \<open>processValue\<close> returns after a run of rounds.\<close>

definition resultOf :: "round \<Rightarrow> string option" where
  "resultOf rd = (case rd of Return x \<Rightarrow> x | Continue r i b \<Rightarrow> Some r)"

text \<open>
  What holds of the output \<open>out\<close> of a run that starts in the middle of the loop, with
  \<open>r\<close> accumulated: \<open>pieces\<close> are what the rounds appended, one per position.
\<close>

definition shape :: "string \<Rightarrow> token_table \<Rightarrow> MaskOptions \<Rightarrow> string \<Rightarrow> string \<Rightarrow> nat
    \<Rightarrow> bool \<Rightarrow> string \<Rightarrow> string list \<Rightarrow> bool" where
  "shape v tks opts t r i b out pieces \<longleftrightarrow>
     out = r @ concat pieces
     \<and> length pieces \<le> length (slots t)
     \<and> list_all2 (filled v tks) (take (length pieces) (slots t)) pieces
     \<and> (b \<or> length (takeWhile (\<lambda>m. m \<noteq> CHR ''?'') t) \<le> length pieces)
     \<and> (length (slots t) \<le> length pieces
        \<or> (\<exists>n j. rounds v tks opts (take n t) r i b = Continue out j True \<and> length v \<le> j))"

text \<open>
  The token overrides given to the constructor, and the token table a preset is applied
  on: the preset's own tokens first, then the constructor's overrides, then the defaults.
\<close>

definition ctorTokens :: "MaskOptions option \<Rightarrow> token_table" where
  "ctorTokens ctor = (case ctor of None \<Rightarrow> Map.empty | Some x \<Rightarrow> tokensOf x)"

definition presetTokens :: "MaskOptions option \<Rightarrow> MaskOptions \<Rightarrow> token_table" where
  "presetTokens ctor p k =
     (case tokensOf p k of
        Some t \<Rightarrow> Some t
      | None \<Rightarrow> (case ctorTokens ctor k of Some t \<Rightarrow> Some t | None \<Rightarrow> DEFAULT_TOKENS k))"

text \<open>
  \<open>mask\<close>/\<open>apply\<close> as the specification words it: the first template that does not
  fail; else the empty string for an empty value when \<open>allowEmpty\<close> is set; else the
  first template once more, and the empty string if that fails.
\<close>

definition apply_spec :: "string \<Rightarrow> token_table \<Rightarrow> MaskOptions \<Rightarrow> string" where
  "apply_spec v tks opts =
     (case find (\<lambda>p. processValue v p tks opts \<noteq> None) (masksOf opts) of
        Some p \<Rightarrow> (case processValue v p tks opts of Some r \<Rightarrow> r | None \<Rightarrow> [])
      | None \<Rightarrow>
          if truthy (mo_allowEmpty opts) \<and> v = [] then []
          else (case masksOf opts of
                  [] \<Rightarrow> []
                | p # _ \<Rightarrow> (case processValue v p tks opts of Some r \<Rightarrow> r | None \<Rightarrow> [])))"

section \<open>Regular expressions\<close>

text \<open>
  The patterns of \<open>textParser.ts\<close> are matched by the backtracking matcher of the
  language: every way a pattern matches at a position, in the order the matcher tries
  them; the first one is the match. A state is the end index and the captures (group
  number to the captured span of the text).
\<close>

type_synonym captures = "nat \<rightharpoonup> nat \<times> nat"

type_synonym mstate = "nat \<times> captures"

text \<open>
  The constructs the patterns use: a one-character atom (a literal, a class, an escape),
  \<open>\b\<close> and \<open>\B\<close>, sequence, alternation, a greedy quantifier \<open>{min,max}\<close> on a
  one-character atom (\<open>?\<close>, \<open>*\<close>, \<open>+\<close>, \<open>{n}\<close>, \<open>{n,}\<close>, \<open>{n,m}\<close>), a greedy \<open>?\<close> on a
  group, and a capturing group.
\<close>

datatype regex =
    Eps
  | Chr "char \<Rightarrow> bool"
  | WordB
  | NotWordB
  | Seq regex regex
  | Alt regex regex
  | Rep "char \<Rightarrow> bool" nat "nat option"
  | Opt regex
  | Group nat regex

definition isWordChar :: "char \<Rightarrow> bool" where
  "isWordChar c \<longleftrightarrow> isAlnum c \<or> c = CHR ''_''"

definition isSpace :: "char \<Rightarrow> bool" where
  "isSpace c \<longleftrightarrow> code c \<in> {9, 10, 11, 12, 13, 32, 160}"

definition isWordBoundary :: "string \<Rightarrow> nat \<Rightarrow> bool" where
  "isWordBoundary s e \<longleftrightarrow>
     (0 < e \<and> e - 1 < length s \<and> isWordChar (s ! (e - 1)))
       \<noteq> (e < length s \<and> isWordChar (s ! e))"

primrec groupsOf :: "regex \<Rightarrow> nat list" where
  "groupsOf Eps = []"
| "groupsOf (Chr P) = []"
| "groupsOf WordB = []"
| "groupsOf NotWordB = []"
| "groupsOf (Seq a b) = groupsOf a @ groupsOf b"
| "groupsOf (Alt a b) = groupsOf a @ groupsOf b"
| "groupsOf (Rep P lo hi) = []"
| "groupsOf (Opt r) = groupsOf r"
| "groupsOf (Group k r) = k # groupsOf r"

definition resetGroups :: "nat list \<Rightarrow> captures \<Rightarrow> captures" where
  "resetGroups ks c = (\<lambda>k. if k \<in> set ks then None else c k)"

text \<open>
  \<open>Rep\<close> is greedy: the longest run first, down to \<open>lo\<close>. \<open>Opt\<close> enters the group with
  the group's captures reset, refuses an empty iteration, and skips the group last.
\<close>

primrec matches :: "regex \<Rightarrow> string \<Rightarrow> mstate \<Rightarrow> mstate list" where
  "matches Eps s st = [st]"
| "matches (Chr P) s st =
     (if fst st < length s \<and> P (s ! fst st) then [(Suc (fst st), snd st)] else [])"
| "matches WordB s st = (if isWordBoundary s (fst st) then [st] else [])"
| "matches NotWordB s st = (if isWordBoundary s (fst st) then [] else [st])"
| "matches (Seq a b) s st = concat (map (matches b s) (matches a s st))"
| "matches (Alt a b) s st = matches a s st @ matches b s st"
| "matches (Rep P lo hi) s st =
     map (\<lambda>k. (fst st + k, snd st))
       (rev [lo ..< Suc (case hi of
                          None \<Rightarrow> length (takeWhile P (drop (fst st) s))
                        | Some h \<Rightarrow> min h (length (takeWhile P (drop (fst st) s))))])"
| "matches (Opt r) s st =
     filter (\<lambda>y. fst y \<noteq> fst st) (matches r s (fst st, resetGroups (groupsOf r) (snd st)))
       @ [st]"
| "matches (Group k r) s st =
     map (\<lambda>y. (fst y, (snd y)(k \<mapsto> (fst st, fst y)))) (matches r s st)"

definition seqs :: "regex list \<Rightarrow> regex" where
  "seqs rs = foldr Seq rs Eps"

text \<open>A literal character, and one under the flag \<open>i\<close> (letters of either case).\<close>

definition lit :: "char \<Rightarrow> regex" where
  "lit c = Chr (\<lambda>x. x = c)"

definition canonicalize :: "char \<Rightarrow> char" where
  "canonicalize c = (if isLower c then char_of (code c - 32) else c)"

definition lit_i :: "char \<Rightarrow> regex" where
  "lit_i c = Chr (\<lambda>x. canonicalize x = canonicalize c)"

text \<open>
  \<open>RegExp.prototype.exec\<close> from \<open>lastIndex\<close>: the first start position with a match, and
  the first match there.
\<close>

fun firstMatch :: "regex \<Rightarrow> string \<Rightarrow> nat list \<Rightarrow> (nat \<times> mstate) option" where
  "firstMatch r s [] = None"
| "firstMatch r s (i # is) =
     (case matches r s (i, Map.empty) of
        [] \<Rightarrow> firstMatch r s is
      | y # _ \<Rightarrow> Some (i, y))"

definition exec :: "regex \<Rightarrow> string \<Rightarrow> nat \<Rightarrow> (nat \<times> mstate) option" where
  "exec r s lastIndex =
     (if lastIndex > length s then None else firstMatch r s [lastIndex ..< Suc (length s)])"

definition substring :: "string \<Rightarrow> nat \<Rightarrow> nat \<Rightarrow> string" where
  "substring s a b = take (b - a) (drop a s)"

text \<open>A match object: \<open>match.index\<close>, \<open>match[0]\<close> and the groups \<open>match[1]\<close>, ...\<close>

record js_match =
  index :: nat
  whole :: string
  grp :: "nat \<rightharpoonup> string"

definition toMatch :: "string \<Rightarrow> nat \<times> mstate \<Rightarrow> js_match" where
  "toMatch s m =
     \<lparr>index = fst m,
      whole = substring s (fst m) (fst (snd m)),
      grp = (\<lambda>k. case snd (snd m) k of None \<Rightarrow> None | Some (a, b) \<Rightarrow> Some (substring s a b))\<rparr>"

lemma matches_bounds:
  "y \<in> set (matches r s st) \<Longrightarrow> fst st \<le> length s \<Longrightarrow> fst st \<le> fst y \<and> fst y \<le> length s"
proof (induction r arbitrary: st y)
  case (Seq a b)
  from Seq.prems obtain m where m: "m \<in> set (matches a s st)" and y: "y \<in> set (matches b s m)"
    by auto
  from Seq.IH(1)[OF m Seq.prems(2)] have "fst st \<le> fst m" "fst m \<le> length s" by auto
  with Seq.IH(2)[OF y] show ?case by auto
next
  case (Rep P lo hi)
  have "length (takeWhile P (drop (fst st) s)) \<le> length s - fst st"
    by (metis length_takeWhile_le length_drop)
  with Rep show ?case by (auto split: option.splits)
next
  case (Opt r)
  then show ?case by fastforce
next
  case (Group k r)
  from Group.prems(1) obtain z where "z \<in> set (matches r s st)" and "fst y = fst z"
    by auto
  with Group.IH[of z st] Group.prems(2) show ?case by simp
qed (auto split: if_splits)

lemma firstMatch_bounds:
  "firstMatch r s is = Some (i, y) \<Longrightarrow> \<forall>j \<in> set is. lo \<le> j \<and> j \<le> length s
     \<Longrightarrow> lo \<le> i \<and> i \<le> fst y \<and> fst y \<le> length s"
proof (induction "is")
  case Nil
  then show ?case by simp
next
  case (Cons j js)
  show ?case
  proof (cases "matches r s (j, Map.empty)")
    case Nil
    with Cons show ?thesis by simp
  next
    case (Cons z zs)
    with Cons.prems have "i = j" "y = z" by auto
    moreover have "z \<in> set (matches r s (j, Map.empty))" using Cons by simp
    ultimately show ?thesis using matches_bounds[of z r s "(j, Map.empty)"] Cons.prems(2)
      by auto
  qed
qed

lemma exec_bounds:
  "exec r s lastIndex = Some (i, y) \<Longrightarrow> lastIndex \<le> i \<and> i \<le> fst y \<and> fst y \<le> length s"
  unfolding exec_def
  by (cases "lastIndex > length s") (auto dest!: firstMatch_bounds[where lo = lastIndex])

text \<open>
  \<open>String.prototype.matchAll\<close> with a global pattern: \<open>exec\<close> again and again, each time
  from the end of the last match (one further after an empty match). It works on a copy
  of the pattern, so the \<open>lastIndex\<close> of the pattern itself stays 0 and every call starts
  at the beginning of the text.
\<close>

function matchAllFrom :: "regex \<Rightarrow> string \<Rightarrow> nat \<Rightarrow> js_match list" where
  "matchAllFrom r s lastIndex =
     (case exec r s lastIndex of
        None \<Rightarrow> []
      | Some m \<Rightarrow>
          toMatch s m
            # matchAllFrom r s (if fst (snd m) = fst m then Suc (fst (snd m)) else fst (snd m)))"
  by pat_completeness auto
termination
proof (relation "measure (\<lambda>(r, s, lastIndex). Suc (length s) - lastIndex)")
  show "wf (measure (\<lambda>(r, s, lastIndex). Suc (length s) - lastIndex))"
    by simp
next
  fix r s lastIndex m
  assume "exec r s lastIndex = Some m"
  then have "lastIndex \<le> fst m \<and> fst m \<le> fst (snd m) \<and> fst (snd m) \<le> length s"
    using exec_bounds[of r s lastIndex "fst m" "snd m"] by simp
  then show "((r, s, if fst (snd m) = fst m then Suc (fst (snd m)) else fst (snd m)),
              (r, s, lastIndex))
             \<in> measure (\<lambda>(r, s, lastIndex). Suc (length s) - lastIndex)"
    by auto
qed

declare matchAllFrom.simps [simp del]

definition matchAll :: "regex \<Rightarrow> string \<Rightarrow> js_match list" where
  "matchAll r s = matchAllFrom r s 0"

section \<open>The text parser (\<open>TextParser\<close>)\<close>

subsection \<open>The patterns\<close>

text \<open>Character classes of the patterns; under the flag \<open>i\<close> a letter class has both cases.\<close>

definition notSpace :: "char \<Rightarrow> bool" where
  "notSpace c \<longleftrightarrow> \<not> isSpace c"

definition labelChar :: "char \<Rightarrow> bool" where
  "labelChar c \<longleftrightarrow> isAlnum c \<or> c = CHR ''-''"

definition tagChar :: "char \<Rightarrow> bool" where
  "tagChar c \<longleftrightarrow> isAlnum c \<or> c \<in> set ''._-''"

definition localChar :: "char \<Rightarrow> bool" where
  "localChar c \<longleftrightarrow> isAlnum c \<or> c \<in> set ''._%+-''"

definition domainChar :: "char \<Rightarrow> bool" where
  "domainChar c \<longleftrightarrow> isAlnum c \<or> c \<in> set ''.-''"

text \<open>\<open>(?:\/[^\s]*)?\<close>\<close>

definition pathPart :: regex where
  "pathPart = Opt (Seq (lit CHR ''/'') (Rep notSpace 0 None))"

text \<open>
  \<open>/\b(?:https?:\/\/|www\.)\S+\.[a-z]{2,}(?:\/[^\s]*)?|\b[a-z0-9-]+\.[a-z]{2,}(?:\/[^\s]*)?\b/gi\<close>
\<close>

definition url_pattern :: regex where
  "url_pattern =
     Alt
       (seqs [WordB,
              Alt (seqs [lit_i CHR ''h'', lit_i CHR ''t'', lit_i CHR ''t'', lit_i CHR ''p'',
                         Rep (\<lambda>x. canonicalize x = CHR ''S'') 0 (Some 1),
                         lit CHR '':'', lit CHR ''/'', lit CHR ''/''])
                  (seqs [lit_i CHR ''w'', lit_i CHR ''w'', lit_i CHR ''w'', lit CHR ''.'']),
              Rep notSpace 1 None, lit CHR ''.'', Rep isLetter 2 None, pathPart])
       (seqs [WordB, Rep labelChar 1 None, lit CHR ''.'', Rep isLetter 2 None, pathPart,
              WordB])"

text \<open>\<open>/\B#[a-z][a-z0-9._-]*\b/gi\<close>\<close>

definition hashtag_pattern :: regex where
  "hashtag_pattern = seqs [NotWordB, lit CHR ''#'', Chr isLetter, Rep tagChar 0 None, WordB]"

text \<open>\<open>/\B@[a-z][a-z0-9._-]*\b/gi\<close>\<close>

definition mention_pattern :: regex where
  "mention_pattern = seqs [NotWordB, lit CHR ''@'', Chr isLetter, Rep tagChar 0 None, WordB]"

text \<open>\<open>/\b[A-Z0-9._%+-]+@[A-Z0-9.-]+\.[A-Z]{2,}\b/gi\<close>\<close>

definition email_pattern :: regex where
  "email_pattern =
     seqs [WordB, Rep localChar 1 None, lit CHR ''@'', Rep domainChar 1 None, lit CHR ''.'',
           Rep isLetter 2 None, WordB]"

text \<open>
  \<open>/(?:\+?(\d{1,3}))?[-. (]*(\d{3})[-. )]*(\d{3})[-. ]*(\d{4})(?: *x(\d+))?\b/g\<close>
\<close>

definition phone_pattern :: regex where
  "phone_pattern =
     seqs [Opt (Seq (Rep (\<lambda>x. x = CHR ''+'') 0 (Some 1)) (Group 1 (Rep isDigit 1 (Some 3)))),
           Rep (\<lambda>x. x \<in> set ''-. ('') 0 None,
           Group 2 (Rep isDigit 3 (Some 3)),
           Rep (\<lambda>x. x \<in> set ''-. )'') 0 None,
           Group 3 (Rep isDigit 3 (Some 3)),
           Rep (\<lambda>x. x \<in> set ''-. '') 0 None,
           Group 4 (Rep isDigit 4 (Some 4)),
           Opt (seqs [Rep (\<lambda>x. x = CHR '' '') 0 None, lit CHR ''x'',
                      Group 5 (Rep isDigit 1 None)]),
           WordB]"

text \<open>\<open>/\[([^\]]+)\]\(([^)]+)\)/g\<close>\<close>

definition links_pattern :: regex where
  "links_pattern =
     seqs [lit CHR ''['', Group 1 (Rep (\<lambda>x. x \<noteq> CHR '']'') 1 None), lit CHR '']'',
           lit CHR ''('', Group 2 (Rep (\<lambda>x. x \<noteq> CHR '')'') 1 None), lit CHR '')'']"

subsection \<open>Data\<close>

record ParseOptions =
  po_urls :: "bool option"
  po_hashtags :: "bool option"
  po_mentions :: "bool option"
  po_emails :: "bool option"
  po_phones :: "bool option"
  po_markdownLinks :: "bool option"
  po_markdownHeadings :: "bool option"
  po_markdownLists :: "bool option"
  po_markdownEmphasis :: "bool option"
  po_all :: "bool option"

datatype match_type = Url | Hashtag | Mention | Email | MarkdownLink | Phone

record position =
  start :: nat
  finish :: nat

text \<open>\<open>TextMatch\<close>; the fields \<open>type\<close>, \<open>text\<close>, \<open>value\<close>, \<open>position\<close> (\<open>start\<close>, \<open>end\<close>), \<open>url\<close>.\<close>

record TextMatch =
  tm_type :: match_type
  tm_text :: string
  tm_value :: string
  tm_position :: position
  tm_url :: "string option"

record BaseUrls =
  bu_hashtags :: "string option"
  bu_mentions :: "string option"
  bu_assets :: "string option"

text \<open>\<open>a || b\<close> on optional booleans.\<close>

definition or_else :: "bool option \<Rightarrow> bool option \<Rightarrow> bool option" where
  "or_else a b = (if truthy a then a else b)"

text \<open>The constructor; its parameter defaults to \<open>{ all: true }\<close>.\<close>

definition all_true :: ParseOptions where
  "all_true =
     \<lparr>po_urls = None, po_hashtags = None, po_mentions = None, po_emails = None,
      po_phones = None, po_markdownLinks = None, po_markdownHeadings = None,
      po_markdownLists = None, po_markdownEmphasis = None, po_all = Some True\<rparr>"

definition TextParser_new :: "ParseOptions option \<Rightarrow> ParseOptions" where
  "TextParser_new opts =
     (let ops = (case opts of None \<Rightarrow> all_true | Some x \<Rightarrow> x)
      in \<lparr>po_urls = or_else (po_all ops) (po_urls ops),
          po_hashtags = or_else (po_all ops) (po_hashtags ops),
          po_mentions = or_else (po_all ops) (po_mentions ops),
          po_emails = or_else (po_all ops) (po_emails ops),
          po_phones = or_else (po_all ops) (po_phones ops),
          po_markdownLinks = or_else (po_all ops) (po_markdownLinks ops),
          po_markdownHeadings = or_else (po_all ops) (po_markdownHeadings ops),
          po_markdownLists = or_else (po_all ops) (po_markdownLists ops),
          po_markdownEmphasis = or_else (po_all ops) (po_markdownEmphasis ops),
          po_all = None\<rparr>)"

subsection \<open>\<open>findLinkableElements\<close>\<close>

definition startsWith :: "string \<Rightarrow> string \<Rightarrow> bool" where
  "startsWith p s \<longleftrightarrow> take (length p) s = p"

text \<open>\<open>s.replace(/\/$/, "")\<close> and \<open>s.replace(/^\//, "")\<close>.\<close>

definition dropTrailingSlash :: "string \<Rightarrow> string" where
  "dropTrailingSlash s = (if s \<noteq> [] \<and> last s = CHR ''/'' then butlast s else s)"

definition dropLeadingSlash :: "string \<Rightarrow> string" where
  "dropLeadingSlash s = (case s of c # cs \<Rightarrow> if c = CHR ''/'' then cs else s | [] \<Rightarrow> s)"

text \<open>The base URL of \<open>baseUrls?.field\<close> when it is there and truthy (not empty).\<close>

definition baseOf :: "BaseUrls option \<Rightarrow> (BaseUrls \<Rightarrow> string option) \<Rightarrow> string option" where
  "baseOf baseUrls field =
     (case baseUrls of
        None \<Rightarrow> None
      | Some b \<Rightarrow> (case field b of None \<Rightarrow> None | Some u \<Rightarrow> if u = [] then None else Some u))"

definition mkMatch :: "match_type \<Rightarrow> js_match \<Rightarrow> string \<Rightarrow> string \<Rightarrow> TextMatch" where
  "mkMatch t m v u =
     \<lparr>tm_type = t, tm_text = whole m, tm_value = v,
      tm_position = \<lparr>start = index m, finish = index m + length (whole m)\<rparr>,
      tm_url = Some u\<rparr>"

definition urlMatch :: "js_match \<Rightarrow> TextMatch" where
  "urlMatch m =
     mkMatch Url m (whole m)
       (if startsWith ''http'' (whole m) then whole m else ''https://'' @ whole m)"

definition hashtagMatch :: "BaseUrls option \<Rightarrow> js_match \<Rightarrow> TextMatch" where
  "hashtagMatch baseUrls m =
     (let tag = drop 1 (whole m)
      in mkMatch Hashtag m tag
           (case baseOf baseUrls bu_hashtags of
              Some b \<Rightarrow> dropTrailingSlash b @ ''/'' @ tag
            | None \<Rightarrow> ''/tags/'' @ tag))"

definition mentionMatch :: "BaseUrls option \<Rightarrow> js_match \<Rightarrow> TextMatch" where
  "mentionMatch baseUrls m =
     (let username = drop 1 (whole m)
      in mkMatch Mention m username
           (case baseOf baseUrls bu_mentions of
              Some b \<Rightarrow> dropTrailingSlash b @ ''/'' @ username
            | None \<Rightarrow> ''/users/'' @ username))"

definition emailMatch :: "js_match \<Rightarrow> TextMatch" where
  "emailMatch m = mkMatch Email m (whole m) (''mailto:'' @ whole m)"

text \<open>
  A group that took no part in the match is \<open>undefined\<close>; in a template literal it reads
  \<open>undefined\<close>, and it is falsy, as the empty string is.
\<close>

definition interpolate :: "string option \<Rightarrow> string" where
  "interpolate g = (case g of None \<Rightarrow> ''undefined'' | Some x \<Rightarrow> x)"

definition present :: "string option \<Rightarrow> bool" where
  "present g \<longleftrightarrow> (case g of None \<Rightarrow> False | Some x \<Rightarrow> x \<noteq> [])"

definition phoneFormatted :: "js_match \<Rightarrow> string" where
  "phoneFormatted m =
     (if present (grp m 1) then ''+'' @ interpolate (grp m 1) @ '' '' else [])
       @ ''('' @ interpolate (grp m 2) @ '') '' @ interpolate (grp m 3) @ ''-''
       @ interpolate (grp m 4)
       @ (if present (grp m 5) then '' x'' @ interpolate (grp m 5) else [])"

definition phoneValue :: "js_match \<Rightarrow> string" where
  "phoneValue m =
     (if present (grp m 1) then ''+'' @ interpolate (grp m 1) else [])
       @ interpolate (grp m 2) @ interpolate (grp m 3) @ interpolate (grp m 4)
       @ (if present (grp m 5) then '';'' @ interpolate (grp m 5) else [])"

definition phoneMatch :: "js_match \<Rightarrow> TextMatch" where
  "phoneMatch m = mkMatch Phone m (phoneFormatted m) (''tel:'' @ phoneValue m)"

definition linkMatch :: "BaseUrls option \<Rightarrow> js_match \<Rightarrow> TextMatch" where
  "linkMatch baseUrls m =
     (let url = interpolate (grp m 2)
      in mkMatch MarkdownLink m (interpolate (grp m 1))
           (case baseOf baseUrls bu_assets of
              None \<Rightarrow> url
            | Some b \<Rightarrow>
                if startsWith ''http'' url then url
                else dropTrailingSlash b @ ''/'' @ dropLeadingSlash url))"

text \<open>The matches in the order the source pushes them, before the final sort.\<close>

definition collected :: "ParseOptions \<Rightarrow> string \<Rightarrow> BaseUrls option \<Rightarrow> TextMatch list" where
  "collected this s baseUrls =
     (if truthy (po_urls this) then map urlMatch (matchAll url_pattern s) else [])
     @ (if truthy (po_hashtags this)
        then map (hashtagMatch baseUrls) (matchAll hashtag_pattern s) else [])
     @ (if truthy (po_mentions this)
        then map (mentionMatch baseUrls) (matchAll mention_pattern s) else [])
     @ (if truthy (po_emails this) then map emailMatch (matchAll email_pattern s) else [])
     @ (if truthy (po_phones this) then map phoneMatch (matchAll phone_pattern s) else [])
     @ (if truthy (po_markdownLinks this)
        then map (linkMatch baseUrls) (matchAll links_pattern s) else [])"

text \<open>
  \<open>matches.sort((a, b) => a.position.start - b.position.start)\<close>: a stable sort on the
  start position.
\<close>

definition findLinkableElements :: "ParseOptions \<Rightarrow> string \<Rightarrow> BaseUrls option
    \<Rightarrow> TextMatch list" where
  "findLinkableElements this s baseUrls =
     sort_key (\<lambda>m. start (tm_position m)) (collected this s baseUrls)"

subsection \<open>Notions the properties of the text parser are stated with\<close>

text \<open>A match object lies in the text: \<open>match[0]\<close> is the text from \<open>match.index\<close> on.\<close>

definition inText :: "string \<Rightarrow> js_match \<Rightarrow> bool" where
  "inText s m \<longleftrightarrow>
     index m + length (whole m) \<le> length s
     \<and> substring s (index m) (index m + length (whole m)) = whole m"

text \<open>A record lies in the text: \<open>text[start:end]\<close> is its \<open>text\<close> field.\<close>

definition located :: "string \<Rightarrow> TextMatch \<Rightarrow> bool" where
  "located s m \<longleftrightarrow>
     start (tm_position m) \<le> finish (tm_position m)
     \<and> finish (tm_position m) \<le> length s
     \<and> substring s (start (tm_position m)) (finish (tm_position m)) = tm_text m"

text \<open>The digit characters of a string, in order.\<close>

definition digits :: "string \<Rightarrow> string" where
  "digits s = filter isDigit s"

text \<open>
  A pattern keeps its digits in groups when every atom outside a capturing group accepts
  no digit, the groups are not nested, and the two sides of a sequence or an alternation
  share no group.
\<close>

primrec digitsInGroups :: "regex \<Rightarrow> bool" where
  "digitsInGroups Eps \<longleftrightarrow> True"
| "digitsInGroups (Chr P) \<longleftrightarrow> (\<forall>c. P c \<longrightarrow> \<not> isDigit c)"
| "digitsInGroups WordB \<longleftrightarrow> True"
| "digitsInGroups NotWordB \<longleftrightarrow> True"
| "digitsInGroups (Seq a b) \<longleftrightarrow>
     digitsInGroups a \<and> digitsInGroups b \<and> set (groupsOf a) \<inter> set (groupsOf b) = {}"
| "digitsInGroups (Alt a b) \<longleftrightarrow>
     digitsInGroups a \<and> digitsInGroups b \<and> set (groupsOf a) \<inter> set (groupsOf b) = {}"
| "digitsInGroups (Rep P lo hi) \<longleftrightarrow> (\<forall>c. P c \<longrightarrow> \<not> isDigit c)"
| "digitsInGroups (Opt r) \<longleftrightarrow> digitsInGroups r"
| "digitsInGroups (Group k r) \<longleftrightarrow> groupsOf r = []"

text \<open>The digits of the spans captured by the groups \<open>ks\<close>, in that order.\<close>

definition capDigits :: "string \<Rightarrow> nat list \<Rightarrow> captures \<Rightarrow> string" where
  "capDigits s ks c =
     concat (map (\<lambda>k. case c k of None \<Rightarrow> [] | Some (a, b) \<Rightarrow> digits (substring s a b)) ks)"

text \<open>The digits of a group as the source reads it (\<open>undefined\<close> has no digit).\<close>

definition grpDigits :: "js_match \<Rightarrow> nat \<Rightarrow> string" where
  "grpDigits m k = (case grp m k of None \<Rightarrow> [] | Some x \<Rightarrow> digits x)"

section \<open>Properties of the mask engine\<close>

subsection \<open>The loop and the placeholder scan\<close>


lemma scanToken_accept:
  "i < length v \<Longrightarrow> pattern tok (v ! i)
     \<Longrightarrow> scanToken v tok b i = Accepted (transformed tok (v ! i)) (Suc i)"
  by (simp add: scanToken.simps)

lemma scanToken_Accepted:
  "scanToken v tok b i = Accepted out j
     \<Longrightarrow> \<exists>k. i \<le> k \<and> k < length v \<and> j = Suc k \<and> pattern tok (v ! k)
           \<and> out = transformed tok (v ! k)"
proof (induction v tok b i rule: scanToken.induct)
  case (1 v tok isOptional i)
  show ?case
  proof (cases "i < length v \<and> \<not> pattern tok (v ! i) \<and> isOptional")
    case True
    then have "scanToken v tok isOptional i = scanToken v tok isOptional (Suc i)"
      by (subst scanToken.simps) simp
    with "1.prems" have "scanToken v tok isOptional (Suc i) = Accepted out j"
      by simp
    with "1.IH" True obtain k where "Suc i \<le> k" "k < length v" "j = Suc k"
        "pattern tok (v ! k)" "out = transformed tok (v ! k)"
      by blast
    then show ?thesis by (intro exI[of _ k]) simp
  next
    case False
    with "1.prems" show ?thesis
      by (auto simp: scanToken.simps[of v tok isOptional i] split: if_splits)
  qed
qed

lemma scanToken_Exhausted:
  "scanToken v tok b i = Exhausted j \<Longrightarrow> length v \<le> j \<and> (i < length v \<longrightarrow> b)"
proof (induction v tok b i rule: scanToken.induct)
  case (1 v tok isOptional i)
  show ?case
  proof (cases "i < length v \<and> \<not> pattern tok (v ! i) \<and> isOptional")
    case True
    then have "scanToken v tok isOptional i = scanToken v tok isOptional (Suc i)"
      by (subst scanToken.simps) simp
    with "1.prems" have "scanToken v tok isOptional (Suc i) = Exhausted j"
      by simp
    with "1.IH" True show ?thesis by simp
  next
    case False
    with "1.prems" show ?thesis
      by (auto simp: scanToken.simps[of v tok isOptional i] split: if_splits)
  qed
qed

lemma rounds_conforming:
  "CHR ''?'' \<notin> set t \<Longrightarrow> list_all2 (fits tks) t w
     \<Longrightarrow> rounds (u @ w) tks opts t r (length u) False = Continue (r @ w) (length u + length w) False"
proof (induction t arbitrary: u w r)
  case Nil
  then show ?case by simp
next
  case (Cons m ms)
  from Cons.prems(2) obtain c cs where w: "w = c # cs" and fit: "fits tks m c"
      and rest: "list_all2 (fits tks) ms cs"
    by (auto simp: list_all2_Cons1)
  from Cons.prems(1) have m: "m \<noteq> CHR ''?''" and ms: "CHR ''?'' \<notin> set ms" by auto
  have at: "(u @ c # cs) ! length u = c" by simp
  have step: "maskRound (u @ w) tks opts m r (length u) False
                = Continue (r @ [c]) (Suc (length u)) False"
  proof (cases "tks m")
    case None
    with fit have "c = m" by (simp add: fits_def)
    with None m w at show ?thesis by (simp add: maskRound_def)
  next
    case (Some tok)
    with fit have "pattern tok c" "transformed tok c = [c]" by (simp_all add: fits_def)
    then have "scanToken (u @ w) tok False (length u) = Accepted [c] (Suc (length u))"
      using scanToken_accept[of "length u" "u @ w" tok False] w at by simp
    with Some m w show ?thesis by (simp add: maskRound_def)
  qed
  from Cons.IH[OF ms rest, of "u @ [c]" "r @ [c]"] w step show ?case by simp
qed

lemma processValue_conforming:
  "CHR ''?'' \<notin> set t \<Longrightarrow> conforms tks t v \<Longrightarrow> processValue v t tks opts = Some v"
  using rounds_conforming[of t tks v "[]" opts "[]"]
  by (simp add: processValue_def conforms_def)

text \<open>
  Mask idempotence on the strings of the model, where every template character is one
  code unit: a template without the optional marker, applied to a value that conforms to
  it (each literal position holds the literal, each placeholder position a character its
  token accepts and its transform leaves unchanged), returns that value unchanged, from
  the single-template algorithm and from \<open>mask\<close>. (The source does not extend this to a
  literal of two code units: \<open>for ... of\<close> hands the loop the whole literal, and the
  comparison with the single code unit \<open>value[valueIndex]\<close> never lets the cursor pass
  it.)
\<close>

lemma mask_idempotent:
  assumes "CHR ''?'' \<notin> set t"
    and "mo_mask opts = Single t"
    and "conforms (tokens this ++ tokensOf opts) t v"
  shows "processValue v t (tokens this ++ tokensOf opts) opts = Some v
         \<and> InputMask_mask this v (Explicit opts) = Inr v"
proof -
  have p: "processValue v t (tokens this ++ tokensOf opts) opts = Some v"
    using assms(1,3) by (rule processValue_conforming)
  moreover have "masksOf opts = [t]" using assms(2) by (simp add: masksOf_def)
  ultimately show ?thesis
    by (simp add: InputMask_mask_def applyMask_def)
qed

lemma mask_idempotent_example:
  "CHR ''?'' \<notin> set ''(999) 999-9999''
   \<and> conforms (tokens (InputMask_new None)
         ++ tokensOf (preset ''(999) 999-9999'' None None (Some True) None))
       ''(999) 999-9999'' ''(123) 456-7890''
   \<and> InputMask_mask (InputMask_new None) ''(123) 456-7890''
       (Explicit (preset ''(999) 999-9999'' None None (Some True) None))
     = Inr ''(123) 456-7890''"
proof -
  let ?opts = "preset ''(999) 999-9999'' None None (Some True) None"
  have h1: "CHR ''?'' \<notin> set ''(999) 999-9999''" by simp
  have h2: "mo_mask ?opts = Single ''(999) 999-9999''" by (simp add: preset_def)
  have h3: "conforms (tokens (InputMask_new None) ++ tokensOf ?opts)
              ''(999) 999-9999'' ''(123) 456-7890''"
    by code_simp
  from mask_idempotent[OF h1 h2 h3] h1 h3 show ?thesis by simp
qed

subsection \<open>The optional marker\<close>





subsection \<open>\<open>applyMask\<close> and the specification's wording\<close>

lemma firstFit_find:
  "firstFit v tks opts ps =
     (case find (\<lambda>p. processValue v p tks opts \<noteq> None) ps of
        Some p \<Rightarrow> processValue v p tks opts
      | None \<Rightarrow> None)"
  by (induction ps) (auto split: option.splits)

lemma firstFit_None_iff:
  "firstFit v tks opts ps = None \<longleftrightarrow> \<not> list_ex (\<lambda>p. processValue v p tks opts \<noteq> None) ps"
  by (induction ps) (auto split: option.splits)

text \<open>
  On every option set with at least one template, \<open>applyMask\<close> returns what the
  specification words.
\<close>

lemma applyMask_refines_spec:
  assumes "masksOf opts \<noteq> []"
  shows "applyMask this v opts = Inr (apply_spec v (tokens this ++ tokensOf opts) opts)"
proof (cases "find (\<lambda>p. processValue v p (tokens this ++ tokensOf opts) opts \<noteq> None)
                (masksOf opts)")
  case None
  with assms show ?thesis
    by (cases "masksOf opts")
      (simp_all add: applyMask_def apply_spec_def firstFit_find Let_def split: option.splits)
next
  case (Some p)
  then have "processValue v p (tokens this ++ tokensOf opts) opts \<noteq> None"
    by (auto simp: find_Some_iff)
  with Some show ?thesis
    by (auto simp: applyMask_def apply_spec_def firstFit_find Let_def)
qed

lemma currency_allows_empty:
  "InputMask_mask this [] (Name ''currency'') = Inr []"
proof -
  have p: "map_of PRESET_MASKS ''currency''
             = Some (preset ''$999,999,999.99'' None None (Some False) (Some True))"
    by (simp add: PRESET_MASKS_def)
  have "processValue [] ''$999,999,999.99'' tks
          (preset ''$999,999,999.99'' None None (Some False) (Some True)) = None" for tks
    by (simp add: processValue_def maskRound_def cleared_def preset_def truthy_def)
  then show ?thesis
    by (simp add: InputMask_mask_def p applyMask_def masksOf_def preset_def truthy_def)
qed

text \<open>Under a preset name \<open>mask\<close> never raises: every preset has one template.\<close>

lemma preset_mask_returns:
  assumes "map_of PRESET_MASKS n = Some p"
  shows "\<exists>r. InputMask_mask this v (Name n) = Inr r"
proof -
  from assms have "(n, p) \<in> set PRESET_MASKS" by (rule map_of_SomeD)
  then have "masksOf p \<noteq> []"
    by (auto simp: PRESET_MASKS_def preset_def masksOf_def)
  from applyMask_refines_spec[OF this] assms show ?thesis
    by (simp add: InputMask_mask_def)
qed

text \<open>
  C3. With an empty list of templates and a value that is not empty, no template fits,
  \<open>allowEmpty\<close> does not apply, and the fallback reads \<open>masks[0]\<close>, which is \<open>undefined\<close>:
  \<open>applyMask\<close> raises a \<open>TypeError\<close>, where the specification's wording has it return a
  string (the empty string, no template having succeeded).
\<close>

theorem applyMask_no_template:
  "applyMask (InputMask_new None) ''5''
     \<lparr>mo_mask = Several [], mo_tokens = None, mo_placeholder = None, mo_autoClear = None,
      mo_stripMask = None, mo_allowEmpty = None\<rparr> = Inl TypeError
   \<and> apply_spec ''5'' (tokens (InputMask_new None))
     \<lparr>mo_mask = Several [], mo_tokens = None, mo_placeholder = None, mo_autoClear = None,
      mo_stripMask = None, mo_allowEmpty = None\<rparr> = []"
  by (simp add: applyMask_def apply_spec_def masksOf_def truthy_def)

text \<open>
  C6. \<open>mask\<close> raises a \<open>TypeError\<close> on an option set whose list of templates is empty,
  for every instance and every value that is not empty, whatever the flags.
\<close>

theorem mask_raises_on_no_template:
  "InputMask_mask this (c # cs)
     (Explicit \<lparr>mo_mask = Several [], mo_tokens = t, mo_placeholder = p, mo_autoClear = ac,
                mo_stripMask = sm, mo_allowEmpty = ae\<rparr>) = Inl TypeError"
  by (simp add: InputMask_mask_def applyMask_def masksOf_def)

subsection \<open>Presets and the instance\<close>

text \<open>
  C7, as stated, fails: \<open>mask\<close> with the preset \<open>phone\<close> gives \<open>(123) 456-7890\<close> on the
  default instance and \<open>""\<close> on an instance whose constructor was given a token \<open>9\<close> that
  accepts letters.
\<close>

theorem preset_result_depends_on_constructor_tokens:
  "InputMask_mask (InputMask_new None) ''1234567890'' (Name ''phone'')
     = Inr ''(123) 456-7890''
   \<and> InputMask_mask
       (InputMask_new (Some (preset [] (Some (map_of [(CHR ''9'', token isLetter None)]))
          None None None)))
       ''1234567890'' (Name ''phone'')
     = Inr []"
  by code_simp

lemma tokens_InputMask_new_ctor:
  "tokens (InputMask_new ctor) = DEFAULT_TOKENS ++ ctorTokens ctor"
  by (cases ctor) (simp_all add: InputMask_new_def ctorTokens_def tokensOf_def Let_def)

lemma presetTokens_merge:
  "tokens (InputMask_new ctor) ++ tokensOf p = presetTokens ctor p"
  by (auto simp: tokens_InputMask_new_ctor presetTokens_def map_add_def fun_eq_iff
      split: option.splits)

lemma preset_has_template:
  assumes "map_of PRESET_MASKS n = Some p"
  shows "masksOf p \<noteq> []"
proof -
  from assms have "(n, p) \<in> set PRESET_MASKS" by (rule map_of_SomeD)
  then show ?thesis by (auto simp: PRESET_MASKS_def preset_def masksOf_def)
qed

text \<open>
  C7, amended. For a preset name of the table and an instance built by the constructor
  from any argument (none included), \<open>mask\<close> returns what applying the preset's options
  gives on the token table in which the preset's own tokens override the constructor's
  token overrides, and these override the defaults. The result is a function of the
  value, the preset and the constructor's token overrides alone: the templates, the
  placeholder and the flags given to the constructor do not enter it, and two
  constructor arguments with the same token overrides give the same result.
\<close>

theorem preset_result_from_preset_and_constructor_tokens:
  assumes "map_of PRESET_MASKS n = Some p"
  shows "InputMask_mask (InputMask_new ctor) v (Name n)
           = Inr (apply_spec v (presetTokens ctor p) p)
         \<and> (ctorTokens ctor = ctorTokens ctor'
            \<longrightarrow> InputMask_mask (InputMask_new ctor) v (Name n)
                = InputMask_mask (InputMask_new ctor') v (Name n))"
proof -
  have r: "InputMask_mask (InputMask_new c) v (Name n)
             = Inr (apply_spec v (presetTokens c p) p)" for c
    using assms applyMask_refines_spec[OF preset_has_template[OF assms], of "InputMask_new c" v]
    by (simp add: InputMask_mask_def presetTokens_merge)
  have "presetTokens ctor p = presetTokens ctor' p" if "ctorTokens ctor = ctorTokens ctor'"
    by (intro ext) (simp add: presetTokens_def that split: option.splits)
  with r[of ctor] r[of ctor'] show ?thesis by simp
qed

theorem preset_result_from_preset_and_constructor_tokens_witness:
  "map_of PRESET_MASKS ''mac''
     = Some (preset ''XX:XX:XX:XX:XX:XX''
               (Some (map_of [(CHR ''X'', token isHex (Some toUpperCase))])) None None None)
   \<and> InputMask_mask
       (InputMask_new (Some (preset ''99'' (Some (map_of [(CHR ''X'', token isDigit None)]))
          (Some ''#'') (Some False) (Some True))))
       ''a1b2c3d4e5f6'' (Name ''mac'')
     = Inr ''A1:B2:C3:D4:E5:F6''
   \<and> InputMask_mask (InputMask_new None) ''a1b2c3d4e5f6'' (Name ''mac'')
     = Inr ''A1:B2:C3:D4:E5:F6''
   \<and> ctorTokens (Some (preset ''99'' None None (Some False) (Some True))) = ctorTokens None
   \<and> InputMask_mask (InputMask_new (Some (preset ''99'' None None (Some False) (Some True))))
       ''12252023'' (Name ''date'')
     = InputMask_mask (InputMask_new None) ''12252023'' (Name ''date'')"
proof -
  let ?mac = "preset ''XX:XX:XX:XX:XX:XX''
                (Some (map_of [(CHR ''X'', token isHex (Some toUpperCase))])) None None None"
  let ?c = "Some (preset ''99'' (Some (map_of [(CHR ''X'', token isDigit None)]))
                (Some ''#'') (Some False) (Some True))"
  let ?d = "Some (preset ''99'' None None (Some False) (Some True))"
  have h1: "map_of PRESET_MASKS ''mac'' = Some ?mac"
    by (simp add: PRESET_MASKS_def)
  have h2: "map_of PRESET_MASKS ''date''
              = Some (preset ''99/99/9999'' None (Some ''mm/dd/yyyy'') None None)"
    by (simp add: PRESET_MASKS_def)
  have a1: "apply_spec ''a1b2c3d4e5f6'' (presetTokens ?c ?mac) ?mac = ''A1:B2:C3:D4:E5:F6''"
    by code_simp
  have a2: "apply_spec ''a1b2c3d4e5f6'' (presetTokens None ?mac) ?mac = ''A1:B2:C3:D4:E5:F6''"
    by code_simp
  have e: "ctorTokens ?d = ctorTokens None"
    by (simp add: ctorTokens_def tokensOf_def preset_def)
  from preset_result_from_preset_and_constructor_tokens[OF h1, of ?c "''a1b2c3d4e5f6''"] a1
  have c1: "InputMask_mask (InputMask_new ?c) ''a1b2c3d4e5f6'' (Name ''mac'')
              = Inr ''A1:B2:C3:D4:E5:F6''"
    by simp
  from preset_result_from_preset_and_constructor_tokens[OF h1, of None "''a1b2c3d4e5f6''"] a2
  have c2: "InputMask_mask (InputMask_new None) ''a1b2c3d4e5f6'' (Name ''mac'')
              = Inr ''A1:B2:C3:D4:E5:F6''"
    by simp
  from preset_result_from_preset_and_constructor_tokens[OF h2, of ?d "''12252023''" None]
  have "ctorTokens ?d = ctorTokens None
        \<longrightarrow> InputMask_mask (InputMask_new ?d) ''12252023'' (Name ''date'')
            = InputMask_mask (InputMask_new None) ''12252023'' (Name ''date'')"
    by (rule conjunct2)
  with e have c3: "InputMask_mask (InputMask_new ?d) ''12252023'' (Name ''date'')
                     = InputMask_mask (InputMask_new None) ''12252023'' (Name ''date'')"
    by (rule rev_mp)
  from h1 c1 c2 e c3 show ?thesis by simp
qed

subsection \<open>\<open>isComplete\<close>\<close>

lemma tokens_InputMask_new_absorb:
  "tokens (InputMask_new ctor) ++ tokensOf (options (InputMask_new ctor))
     = tokens (InputMask_new ctor)"
  by (cases ctor)
    (auto simp: InputMask_new_def tokensOf_def Let_def map_add_def fun_eq_iff
       split: option.splits)

text \<open>
  C8, as stated, fails: on the instance with the template \<open>?9\<close> and \<open>autoClear\<close> false,
  \<open>isComplete("a")\<close> is true, while the only template gives the empty string (not a
  failure, and not a non-empty result).
\<close>

theorem isComplete_with_empty_result:
  "mo_autoClear (options (InputMask_new (Some (preset ''?9'' None None (Some False) None))))
     = Some False
   \<and> isComplete (InputMask_new (Some (preset ''?9'' None None (Some False) None))) ''a''
   \<and> masksOf (options (InputMask_new (Some (preset ''?9'' None None (Some False) None))))
       = [''?9'']
   \<and> processValue ''a'' ''?9''
       (tokens (InputMask_new (Some (preset ''?9'' None None (Some False) None)))
          ++ tokensOf (options (InputMask_new (Some (preset ''?9'' None None (Some False) None)))))
       (options (InputMask_new (Some (preset ''?9'' None None (Some False) None))))
     = Some []"
  by code_simp

text \<open>
  C8, amended. For an instance built by the constructor with \<open>autoClear\<close> false,
  \<open>isComplete(value)\<close> is true if and only if the single-template algorithm, run as
  \<open>mask\<close> runs it with the stored options, returns a result that is not a failure (it
  may be the empty string) for at least one candidate template; \<open>mask\<close> then returns the
  first such result.
\<close>

theorem isComplete_iff_a_template_fits:
  assumes "this = InputMask_new ctor"
    and "mo_autoClear (options this) = Some False"
  shows "(isComplete this v \<longleftrightarrow>
            list_ex (\<lambda>p. processValue v p (tokens this ++ tokensOf (options this)) (options this)
                          \<noteq> None)
              (masksOf (options this)))
         \<and> (isComplete this v \<longleftrightarrow>
              (\<exists>r. firstFit v (tokens this ++ tokensOf (options this)) (options this)
                     (masksOf (options this)) = Some r
                   \<and> InputMask_mask this v Omitted = Inr r))"
proof -
  have tk: "tokens this ++ tokensOf (options this) = tokens this"
    using assms(1) by (simp add: tokens_InputMask_new_absorb)
  have a: "isComplete this v \<longleftrightarrow>
             list_ex (\<lambda>p. processValue v p (tokens this) (options this) \<noteq> None)
               (masksOf (options this))"
    by (simp add: isComplete_def)
  have b: "isComplete this v \<longleftrightarrow>
             firstFit v (tokens this) (options this) (masksOf (options this)) \<noteq> None"
    by (simp add: isComplete_def firstFit_None_iff)
  have c: "InputMask_mask this v Omitted = Inr r"
    if "firstFit v (tokens this) (options this) (masksOf (options this)) = Some r" for r
    using that by (simp add: InputMask_mask_def applyMask_def tk)
  from a b c show ?thesis unfolding tk by auto
qed

theorem isComplete_iff_a_template_fits_witness:
  "mo_autoClear (options (InputMask_new (Some (preset ''99/99'' None None (Some False) None))))
     = Some False
   \<and> isComplete (InputMask_new (Some (preset ''99/99'' None None (Some False) None))) ''1234''
   \<and> InputMask_mask (InputMask_new (Some (preset ''99/99'' None None (Some False) None)))
       ''1234'' Omitted = Inr ''12/34''
   \<and> \<not> isComplete (InputMask_new (Some (preset ''99/99'' None None (Some False) None))) ''12''"
proof -
  let ?im = "InputMask_new (Some (preset ''99/99'' None None (Some False) None))"
  have h: "mo_autoClear (options ?im) = Some False"
    by (simp add: InputMask_new_def preset_def Let_def)
  have f1: "firstFit ''1234'' (tokens ?im ++ tokensOf (options ?im)) (options ?im)
              (masksOf (options ?im)) = Some ''12/34''"
    by code_simp
  have f2: "\<not> list_ex (\<lambda>p. processValue ''12'' p (tokens ?im ++ tokensOf (options ?im))
                            (options ?im) \<noteq> None) (masksOf (options ?im))"
    by code_simp
  have f3: "list_ex (\<lambda>p. processValue ''1234'' p (tokens ?im ++ tokensOf (options ?im))
                          (options ?im) \<noteq> None) (masksOf (options ?im))"
    by code_simp
  note t1 = isComplete_iff_a_template_fits[OF refl h, of "''1234''"]
  from t1 f3 have c1: "isComplete ?im ''1234''" by blast
  with t1 obtain r where "firstFit ''1234'' (tokens ?im ++ tokensOf (options ?im)) (options ?im)
      (masksOf (options ?im)) = Some r" and "InputMask_mask ?im ''1234'' Omitted = Inr r"
    by blast
  with f1 have c2: "InputMask_mask ?im ''1234'' Omitted = Inr ''12/34''" by simp
  from isComplete_iff_a_template_fits[OF refl h, of "''12''"] f2
  have "\<not> isComplete ?im ''12''" by blast
  moreover note c1 c2
  ultimately show ?thesis using h by simp
qed

subsection \<open>The shape of the output\<close>

lemma processValue_resultOf:
  "processValue v t tks opts = resultOf (rounds v tks opts t [] 0 False)"
  by (simp add: processValue_def resultOf_def)

lemma rounds_exhausted_optional:
  "length v \<le> i \<Longrightarrow> resultOf (rounds v tks opts t r i True) = Some r"
  by (cases t) (simp_all add: resultOf_def maskRound_def)

lemma shape_stop:
  "length v \<le> i \<Longrightarrow> shape v tks opts t r i True r []"
proof -
  have "rounds v tks opts (take 0 t) r i True = Continue r i True" by simp
  then have "\<exists>n j. rounds v tks opts (take n t) r i True = Continue r j True \<and> length v \<le> j"
    if "length v \<le> i"
    using that by blast
  then show "length v \<le> i \<Longrightarrow> shape v tks opts t r i True r []"
    unfolding shape_def by simp
qed

lemma shape_marker:
  assumes "maskRound v tks opts CHR ''?'' r i b = Continue r i True"
    and "shape v tks opts ms r i True out pieces"
  shows "shape v tks opts (CHR ''?'' # ms) r i b out pieces"
proof -
  have "\<exists>n j. rounds v tks opts (take n (CHR ''?'' # ms)) r i b = Continue out j True
           \<and> length v \<le> j"
    if "rounds v tks opts (take n ms) r i True = Continue out j True" "length v \<le> j" for n j
    using that assms(1) by (intro exI[of _ "Suc n"] exI[of _ j]) simp
  with assms(2) show ?thesis
    unfolding shape_def slots_def by auto
qed

lemma shape_piece:
  assumes "m \<noteq> CHR ''?''"
    and "maskRound v tks opts m r i b = Continue (r @ p) i' b"
    and "filled v tks m p"
    and "shape v tks opts ms (r @ p) i' b out pieces"
  shows "shape v tks opts (m # ms) r i b out (p # pieces)"
proof -
  have "\<exists>n j. rounds v tks opts (take n (m # ms)) r i b = Continue out j True \<and> length v \<le> j"
    if "rounds v tks opts (take n ms) (r @ p) i' b = Continue out j True" "length v \<le> j" for n j
    using that assms(2) by (intro exI[of _ "Suc n"] exI[of _ j]) simp
  with assms(1,3,4) show ?thesis
    unfolding shape_def slots_def by auto
qed

lemma scanToken_filled:
  assumes "tks m = Some tok" and "scanToken v tok b i = Accepted p j"
  shows "filled v tks m p"
proof -
  from scanToken_Accepted[OF assms(2)] obtain k where
    "k < length v" "pattern tok (v ! k)" "p = transformed tok (v ! k)"
    by blast
  then have "\<exists>c \<in> set v. pattern tok c \<and> p = transformed tok c"
    using nth_mem by blast
  with assms(1) show ?thesis by (simp add: filled_def list_ex_iff)
qed

lemma rounds_shape:
  assumes "resultOf (rounds v tks opts t r i b) = Some out"
    and "out \<noteq> [] \<or> \<not> truthy (mo_autoClear opts)"
  shows "\<exists>pieces. shape v tks opts t r i b out pieces"
  using assms(1)
proof (induction t arbitrary: r i b)
  case Nil
  then have "out = r" by (simp add: resultOf_def)
  then show ?case by (intro exI[of _ "[]"]) (simp add: shape_def slots_def)
next
  case (Cons m ms)
  from assms(2) have nc: "cleared opts \<noteq> Some out" by (auto simp: cleared_def)
  show ?case
  proof (cases "length v \<le> i")
    case True
    with Cons.prems nc have "b" "out = r"
      by (auto simp: resultOf_def maskRound_def split: if_splits)
    with True shape_stop[of v i tks opts "m # ms" r]
    have "shape v tks opts (m # ms) r i b out []" by simp
    then show ?thesis ..
  next
    case inside: False
    show ?thesis
    proof (cases "m = CHR ''?''")
      case True
      with inside have step: "maskRound v tks opts CHR ''?'' r i b = Continue r i True"
        by (simp add: maskRound_def)
      with Cons.prems True have "resultOf (rounds v tks opts ms r i True) = Some out" by simp
      from Cons.IH[OF this] obtain pieces where "shape v tks opts ms r i True out pieces" ..
      from shape_marker[OF step this] True show ?thesis by blast
    next
      case False
      show ?thesis
      proof (cases "tks m")
        case None
        define i' where "i' = (if v ! i = m then Suc i else i)"
        from inside False None
        have step: "maskRound v tks opts m r i b = Continue (r @ [m]) i' b"
          by (simp add: maskRound_def i'_def)
        with Cons.prems have "resultOf (rounds v tks opts ms (r @ [m]) i' b) = Some out"
          by simp
        from Cons.IH[OF this] obtain pieces where
          "shape v tks opts ms (r @ [m]) i' b out pieces" ..
        moreover from None have "filled v tks m [m]" by (simp add: filled_def)
        ultimately show ?thesis using shape_piece[OF False step] by blast
      next
        case (Some tok)
        show ?thesis
        proof (cases "scanToken v tok b i")
          case (Accepted p j)
          with inside False Some
          have step: "maskRound v tks opts m r i b = Continue (r @ p) j b"
            by (simp add: maskRound_def)
          with Cons.prems have "resultOf (rounds v tks opts ms (r @ p) j b) = Some out"
            by simp
          from Cons.IH[OF this] obtain pieces where
            "shape v tks opts ms (r @ p) j b out pieces" ..
          moreover have "filled v tks m p" using Some Accepted by (rule scanToken_filled)
          ultimately show ?thesis using shape_piece[OF False step] by blast
        next
          case Rejected
          with inside False Some Cons.prems nc show ?thesis
            by (simp add: maskRound_def resultOf_def)
        next
          case (Exhausted j)
          from scanToken_Exhausted[OF this] inside have j: "length v \<le> j" and b: "b" by auto
          from inside False Some Exhausted
          have step: "maskRound v tks opts m r i b = Continue r j b"
            by (simp add: maskRound_def)
          with Cons.prems b rounds_exhausted_optional[OF j, of tks opts ms r]
          have "out = r" by simp
          moreover have "rounds v tks opts (take 1 (m # ms)) r i b = Continue r j True"
            using step b by simp
          then have "\<exists>n j. rounds v tks opts (take n (m # ms)) r i b = Continue r j True
                       \<and> length v \<le> j"
            using j by blast
          ultimately have "shape v tks opts (m # ms) r i b out []"
            unfolding shape_def using b by simp
          then show ?thesis ..
        qed
      qed
    qed
  qed
qed

text \<open>
  C9, as stated, fails: the template \<open>99?9-9\<close> on the value \<open>123\<close> gives \<open>123\<close>, a result
  that is not a failure, and the literal \<open>-\<close> of the template is not in it.
\<close>

theorem literal_after_marker_absent:
  "processValue ''123'' ''99?9-9'' DEFAULT_TOKENS
     (preset ''99?9-9'' None None (Some False) None) = Some ''123''
   \<and> DEFAULT_TOKENS CHR ''-'' = None
   \<and> CHR ''-'' \<notin> set ''123''"
  by code_simp

text \<open>
  C9, amended. Every output of the single-template algorithm that is not a failure (the
  empty string under \<open>autoClear\<close>, which a failed run returns too, apart) is the
  concatenation of one piece per template position, in order, for an initial stretch of
  the positions: the piece of a literal position is the literal, the piece of a
  placeholder position is the transform of an input character its token accepts, and
  nothing else is in the output. The stretch covers every position before the first
  optional marker; when positions (literal or placeholder) are absent, the loop had
  reached optional mode with the input used up, and the output is the result at that
  moment.
\<close>

theorem output_shape:
  assumes "processValue v t tks opts = Some out"
    and "out \<noteq> [] \<or> \<not> truthy (mo_autoClear opts)"
  shows "\<exists>pieces. out = concat pieces
           \<and> length pieces \<le> length (slots t)
           \<and> list_all2 (filled v tks) (take (length pieces) (slots t)) pieces
           \<and> length (takeWhile (\<lambda>m. m \<noteq> CHR ''?'') t) \<le> length pieces
           \<and> (length (slots t) \<le> length pieces
              \<or> (\<exists>n j. rounds v tks opts (take n t) [] 0 False = Continue out j True
                       \<and> length v \<le> j))"
proof -
  from assms(1) have "resultOf (rounds v tks opts t [] 0 False) = Some out"
    by (simp add: processValue_resultOf)
  from rounds_shape[OF this assms(2)] show ?thesis
    by (simp add: shape_def)
qed

theorem output_shape_witness:
  "processValue ''1234567890 '' ''(999) 999-9999? x99999'' DEFAULT_TOKENS
     (preset ''(999) 999-9999? x99999'' None None (Some False) None)
     = Some ''(123) 456-7890 ''
   \<and> (\<exists>pieces. ''(123) 456-7890 '' = concat pieces
         \<and> length pieces \<le> length (slots ''(999) 999-9999? x99999'')
         \<and> list_all2 (filled ''1234567890 '' DEFAULT_TOKENS)
             (take (length pieces) (slots ''(999) 999-9999? x99999'')) pieces
         \<and> length (takeWhile (\<lambda>m. m \<noteq> CHR ''?'') ''(999) 999-9999? x99999'')
             \<le> length pieces
         \<and> (length (slots ''(999) 999-9999? x99999'') \<le> length pieces
            \<or> (\<exists>n j. rounds ''1234567890 '' DEFAULT_TOKENS
                       (preset ''(999) 999-9999? x99999'' None None (Some False) None)
                       (take n ''(999) 999-9999? x99999'') [] 0 False
                     = Continue ''(123) 456-7890 '' j True
                     \<and> length ''1234567890 '' \<le> j)))"
proof -
  have h: "processValue ''1234567890 '' ''(999) 999-9999? x99999'' DEFAULT_TOKENS
             (preset ''(999) 999-9999? x99999'' None None (Some False) None)
             = Some ''(123) 456-7890 ''"
    by code_simp
  have "''(123) 456-7890 '' \<noteq> []
        \<or> \<not> truthy (mo_autoClear (preset ''(999) 999-9999? x99999'' None None (Some False) None))"
    by simp
  from output_shape[OF h this] h show ?thesis by blast
qed

section \<open>Properties of the text parser\<close>

subsection \<open>Where a match lies\<close>

lemma toMatch_inText:
  assumes "fst x \<le> fst (snd x)" and "fst (snd x) \<le> length s"
  shows "inText s (toMatch s x)"
  using assms by (simp add: inText_def toMatch_def substring_def)

lemma matchAllFrom_inText:
  "m \<in> set (matchAllFrom r s lastIndex) \<Longrightarrow> inText s m"
proof (induction r s lastIndex rule: matchAllFrom.induct)
  case (1 r s lastIndex)
  show ?case
  proof (cases "exec r s lastIndex")
    case None
    with "1.prems" show ?thesis by (simp add: matchAllFrom.simps[of r s lastIndex])
  next
    case (Some x)
    from exec_bounds[of r s lastIndex "fst x" "snd x"] Some
    have b: "fst x \<le> fst (snd x)" "fst (snd x) \<le> length s" by simp_all
    from "1.prems" Some have
      "m = toMatch s x
       \<or> m \<in> set (matchAllFrom r s
                     (if fst (snd x) = fst x then Suc (fst (snd x)) else fst (snd x)))"
      by (simp add: matchAllFrom.simps[of r s lastIndex])
    then show ?thesis
    proof
      assume "m = toMatch s x"
      with b show ?thesis by (simp add: toMatch_inText)
    next
      assume "m \<in> set (matchAllFrom r s
                          (if fst (snd x) = fst x then Suc (fst (snd x)) else fst (snd x)))"
      with "1.IH"[OF Some] show ?thesis by simp
    qed
  qed
qed

lemma matchAll_inText: "m \<in> set (matchAll r s) \<Longrightarrow> inText s m"
  unfolding matchAll_def by (rule matchAllFrom_inText)

lemma mkMatch_located: "inText s m \<Longrightarrow> located s (mkMatch t m v u)"
  by (simp add: inText_def located_def mkMatch_def)

lemma collected_located: "x \<in> set (collected this s baseUrls) \<Longrightarrow> located s x"
  by (auto simp: collected_def urlMatch_def hashtagMatch_def mentionMatch_def emailMatch_def
        phoneMatch_def linkMatch_def Let_def
      intro!: mkMatch_located matchAll_inText split: if_splits)

text \<open>
  C1. For every text and every configuration of recognizers, \<open>findLinkableElements\<close>
  returns its records sorted by ascending \<open>position.start\<close>, and every record has
  \<open>start \<le> end \<le> text.length\<close> (and \<open>0 \<le> start\<close>, positions being naturals) and
  \<open>text[start:end]\<close> equal to its \<open>text\<close> field.
\<close>

theorem findLinkableElements_sorted_located:
  "sorted (map (\<lambda>m. start (tm_position m)) (findLinkableElements this s baseUrls))
   \<and> list_all
       (\<lambda>m. start (tm_position m) \<le> finish (tm_position m)
            \<and> finish (tm_position m) \<le> length s
            \<and> substring s (start (tm_position m)) (finish (tm_position m)) = tm_text m)
       (findLinkableElements this s baseUrls)"
proof -
  have "located s x" if "x \<in> set (findLinkableElements this s baseUrls)" for x
    using that by (simp add: findLinkableElements_def collected_located)
  then show ?thesis
    by (simp add: findLinkableElements_def list_all_iff located_def)
qed


theorem findLinkableElements_sorted_located_witness:
  "length (findLinkableElements (TextParser_new None) ''x.io #a'' None) = 2
   \<and> sorted (map (\<lambda>m. start (tm_position m))
        (findLinkableElements (TextParser_new None) ''x.io #a'' None))
   \<and> list_all
       (\<lambda>m. start (tm_position m) \<le> finish (tm_position m)
            \<and> finish (tm_position m) \<le> length ''x.io #a''
            \<and> substring ''x.io #a'' (start (tm_position m)) (finish (tm_position m))
                = tm_text m)
       (findLinkableElements (TextParser_new None) ''x.io #a'' None)"
proof -
  have "length (findLinkableElements (TextParser_new None) ''x.io #a'' None) = 2"
    by code_simp
  with findLinkableElements_sorted_located[of "TextParser_new None" "''x.io #a''" None]
  show ?thesis by simp
qed

subsection \<open>Digits of a phone match\<close>

lemma digits_Nil [simp]: "digits [] = []"
  by (simp add: digits_def)

lemma digits_append [simp]: "digits (xs @ ys) = digits xs @ digits ys"
  by (simp add: digits_def)

lemma substring_split:
  "a \<le> b \<Longrightarrow> b \<le> c \<Longrightarrow> substring s a c = substring s a b @ substring s b c"
proof -
  assume "a \<le> b" "b \<le> c"
  then have "c - a = (b - a) + (c - b)" by simp
  then have "take (c - a) (drop a s) = take (b - a) (drop a s) @ take (c - b) (drop (b - a) (drop a s))"
    by (simp only: take_add)
  with \<open>a \<le> b\<close> show ?thesis by (simp add: substring_def)
qed

lemma substring_empty [simp]: "substring s a a = []"
  by (simp add: substring_def)

lemma substring_one: "i < length s \<Longrightarrow> substring s i (Suc i) = [s ! i]"
  by (simp add: substring_def take_Suc_conv_app_nth hd_drop_conv_nth take_Suc)

lemma substring_run:
  assumes "k \<le> length (takeWhile P (drop i s))"
  shows "set (substring s i (i + k)) \<subseteq> {c. P c}"
proof -
  have "take k (drop i s) = take k (takeWhile P (drop i s) @ dropWhile P (drop i s))"
    by simp
  also have "\<dots> = take k (takeWhile P (drop i s))"
    using assms by (simp only: take_append) simp
  finally have "set (substring s i (i + k)) \<subseteq> set (takeWhile P (drop i s))"
    by (simp add: substring_def set_take_subset)
  then show ?thesis by (auto dest: set_takeWhileD)
qed

lemma digits_none: "set xs \<subseteq> {c. P c} \<Longrightarrow> \<forall>c. P c \<longrightarrow> \<not> isDigit c \<Longrightarrow> digits xs = []"
  by (auto simp: digits_def filter_empty_conv)

lemma matches_frame:
  "y \<in> set (matches r s st) \<Longrightarrow> k \<notin> set (groupsOf r) \<Longrightarrow> snd y k = snd st k"
proof (induction r arbitrary: st y)
  case (Seq a b)
  from Seq.prems obtain m where m: "m \<in> set (matches a s st)" and y: "y \<in> set (matches b s m)"
    by auto
  from Seq.IH(1)[OF m] Seq.IH(2)[OF y] Seq.prems(2) show ?case by simp
next
  case (Opt r)
  from Opt.prems(1) have
    "y = st \<or> y \<in> set (matches r s (fst st, resetGroups (groupsOf r) (snd st)))"
    by auto
  then show ?case
  proof
    assume "y = st"
    then show ?thesis by simp
  next
    assume "y \<in> set (matches r s (fst st, resetGroups (groupsOf r) (snd st)))"
    from Opt.IH[OF this] Opt.prems(2) show ?thesis by (simp add: resetGroups_def)
  qed
next
  case (Group g r)
  from Group.prems(1) obtain z where z: "z \<in> set (matches r s st)"
      and y: "y = (fst z, (snd z)(g \<mapsto> (fst st, fst z)))"
    by auto
  from Group.IH[OF z] Group.prems(2) y show ?case by simp
qed (auto split: if_splits)

lemma capDigits_cong:
  "(\<And>k. k \<in> set ks \<Longrightarrow> c k = c' k) \<Longrightarrow> capDigits s ks c = capDigits s ks c'"
  unfolding capDigits_def by (induction ks) auto

lemma capDigits_fresh: "(\<And>k. k \<in> set ks \<Longrightarrow> c k = None) \<Longrightarrow> capDigits s ks c = []"
  unfolding capDigits_def by (induction ks) auto

lemma capDigits_append [simp]:
  "capDigits s (ks @ ls) c = capDigits s ks c @ capDigits s ls c"
  by (simp add: capDigits_def)

lemma matches_Rep_elem:
  assumes "y \<in> set (matches (Rep P lo hi) s st)"
  shows "\<exists>k. k \<le> length (takeWhile P (drop (fst st) s)) \<and> lo \<le> k
             \<and> y = (fst st + k, snd st)"
proof -
  define n where "n = length (takeWhile P (drop (fst st) s))"
  define top where "top = (case hi of None \<Rightarrow> n | Some h \<Rightarrow> min h n)"
  have "top \<le> n" by (simp add: top_def split: option.splits)
  from assms have "y \<in> (\<lambda>k. (fst st + k, snd st)) ` {lo ..< Suc top}"
    unfolding top_def n_def by (simp only: matches.simps set_map set_rev set_upt)
  then obtain k where "k \<in> {lo ..< Suc top}" "y = (fst st + k, snd st)" by (rule imageE)
  then have "lo \<le> k" "k \<le> top" by simp_all
  with \<open>top \<le> n\<close> \<open>y = (fst st + k, snd st)\<close> show ?thesis
    unfolding n_def by (intro exI[of _ k]) simp
qed

lemma matches_digits:
  assumes "y \<in> set (matches r s st)"
    and "fst st \<le> length s"
    and "digitsInGroups r"
    and "\<And>k. k \<in> set (groupsOf r) \<Longrightarrow> snd st k = None"
  shows "digits (substring s (fst st) (fst y)) = capDigits s (groupsOf r) (snd y)"
  using assms
proof (induction r arbitrary: st y)
  case Eps
  then show ?case by (simp add: capDigits_def)
next
  case (Chr P)
  then show ?case
    by (auto simp: capDigits_def substring_one digits_def split: if_splits)
next
  case WordB
  then show ?case by (auto simp: capDigits_def split: if_splits)
next
  case NotWordB
  then show ?case by (auto simp: capDigits_def split: if_splits)
next
  case (Seq a b)
  from Seq.prems(1) obtain m where m: "m \<in> set (matches a s st)"
      and y: "y \<in> set (matches b s m)"
    by auto
  from matches_bounds[OF m Seq.prems(2)] have b1: "fst st \<le> fst m" "fst m \<le> length s"
    by simp_all
  from matches_bounds[OF y b1(2)] have b2: "fst m \<le> fst y" by simp
  from Seq.prems(3) have wa: "digitsInGroups a" and wb: "digitsInGroups b"
      and disj: "set (groupsOf a) \<inter> set (groupsOf b) = {}"
    by simp_all
  have fresh_b: "snd m k = None" if "k \<in> set (groupsOf b)" for k
  proof -
    from that disj have "k \<notin> set (groupsOf a)" by auto
    from matches_frame[OF m this] Seq.prems(4)[of k] that show ?thesis by simp
  qed
  have da: "digits (substring s (fst st) (fst m)) = capDigits s (groupsOf a) (snd m)"
    using Seq.IH(1)[OF m Seq.prems(2) wa] Seq.prems(4) by simp
  have db: "digits (substring s (fst m) (fst y)) = capDigits s (groupsOf b) (snd y)"
    using Seq.IH(2)[OF y b1(2) wb] fresh_b by simp
  have keep: "capDigits s (groupsOf a) (snd m) = capDigits s (groupsOf a) (snd y)"
  proof (rule capDigits_cong)
    fix k assume "k \<in> set (groupsOf a)"
    with disj have "k \<notin> set (groupsOf b)" by auto
    from matches_frame[OF y this] show "snd m k = snd y k" by simp
  qed
  from substring_split[OF b1(1) b2, of s] da db keep show ?case by simp
next
  case (Alt a b)
  from Alt.prems(3) have wa: "digitsInGroups a" and wb: "digitsInGroups b"
      and disj: "set (groupsOf a) \<inter> set (groupsOf b) = {}"
    by simp_all
  from Alt.prems(1) have "y \<in> set (matches a s st) \<or> y \<in> set (matches b s st)" by simp
  then show ?case
  proof
    assume y: "y \<in> set (matches a s st)"
    have "capDigits s (groupsOf b) (snd y) = []"
    proof (rule capDigits_fresh)
      fix k assume k: "k \<in> set (groupsOf b)"
      with disj have "k \<notin> set (groupsOf a)" by auto
      from matches_frame[OF y this] Alt.prems(4)[of k] k show "snd y k = None" by simp
    qed
    with Alt.IH(1)[OF y Alt.prems(2) wa] Alt.prems(4) show ?thesis by simp
  next
    assume y: "y \<in> set (matches b s st)"
    have "capDigits s (groupsOf a) (snd y) = []"
    proof (rule capDigits_fresh)
      fix k assume k: "k \<in> set (groupsOf a)"
      with disj have "k \<notin> set (groupsOf b)" by auto
      from matches_frame[OF y this] Alt.prems(4)[of k] k show "snd y k = None" by simp
    qed
    with Alt.IH(2)[OF y Alt.prems(2) wb] Alt.prems(4) show ?thesis by simp
  qed
next
  case (Rep P lo hi)
  from matches_Rep_elem[OF Rep.prems(1)] obtain k
    where k: "k \<le> length (takeWhile P (drop (fst st) s))" and y: "y = (fst st + k, snd st)"
    by blast
  from substring_run[OF k] Rep.prems(3) have "digits (substring s (fst st) (fst st + k)) = []"
    by (auto intro: digits_none)
  with y show ?case by (simp add: capDigits_def)
next
  case (Opt r)
  from Opt.prems(1) have
    "y = st \<or> y \<in> set (matches r s (fst st, resetGroups (groupsOf r) (snd st)))"
    by auto
  then show ?case
  proof
    assume "y = st"
    with Opt.prems(4) show ?thesis by (simp add: capDigits_fresh digits_def)
  next
    assume y: "y \<in> set (matches r s (fst st, resetGroups (groupsOf r) (snd st)))"
    from Opt.IH[OF y] Opt.prems(2,3) show ?thesis by (simp add: resetGroups_def)
  qed
next
  case (Group g r)
  from Group.prems(1) obtain z where z: "z \<in> set (matches r s st)"
      and y: "y = (fst z, (snd z)(g \<mapsto> (fst st, fst z)))"
    by auto
  from Group.prems(3) y show ?case by (simp add: capDigits_def)
qed


lemma firstMatch_origin:
  "firstMatch r s is = Some x \<Longrightarrow> fst x \<in> set is \<and> snd x \<in> set (matches r s (fst x, Map.empty))"
  by (induction "is") (auto split: list.splits)

lemma exec_origin:
  assumes "exec r s lastIndex = Some x"
  shows "fst x \<le> length s \<and> snd x \<in> set (matches r s (fst x, Map.empty))"
proof -
  from assms have "firstMatch r s [lastIndex ..< Suc (length s)] = Some x"
    by (simp add: exec_def split: if_splits)
  from firstMatch_origin[OF this] show ?thesis by auto
qed

lemma matchAllFrom_origin:
  "m \<in> set (matchAllFrom r s lastIndex)
     \<Longrightarrow> \<exists>x. m = toMatch s x \<and> fst x \<le> length s
              \<and> snd x \<in> set (matches r s (fst x, Map.empty))"
proof (induction r s lastIndex rule: matchAllFrom.induct)
  case (1 r s lastIndex)
  show ?case
  proof (cases "exec r s lastIndex")
    case None
    with "1.prems" show ?thesis by (simp add: matchAllFrom.simps[of r s lastIndex])
  next
    case (Some x)
    from "1.prems" Some have
      "m = toMatch s x
       \<or> m \<in> set (matchAllFrom r s
                     (if fst (snd x) = fst x then Suc (fst (snd x)) else fst (snd x)))"
      by (simp add: matchAllFrom.simps[of r s lastIndex])
    then show ?thesis
    proof
      assume "m = toMatch s x"
      with exec_origin[OF Some] show ?thesis by blast
    next
      assume "m \<in> set (matchAllFrom r s
                          (if fst (snd x) = fst x then Suc (fst (snd x)) else fst (snd x)))"
      with "1.IH"[OF Some] show ?thesis by simp
    qed
  qed
qed

lemma phone_pattern_digitsInGroups: "digitsInGroups phone_pattern"
  by (auto simp: phone_pattern_def seqs_def lit_def isDigit_def between_def code_def)

lemma groupsOf_phone_pattern: "groupsOf phone_pattern = [1, 2, 3, 4, 5]"
  by (simp add: phone_pattern_def seqs_def lit_def)

lemma digits_interpolate: "digits (interpolate (grp m k)) = grpDigits m k"
  by (simp add: interpolate_def grpDigits_def digits_def isDigit_def between_def code_def
      split: option.splits)

lemma grpDigits_absent: "\<not> present (grp m k) \<Longrightarrow> grpDigits m k = []"
  by (auto simp: present_def grpDigits_def split: option.splits)

lemma digits_phoneFormatted:
  "digits (phoneFormatted m)
     = grpDigits m 1 @ grpDigits m 2 @ grpDigits m 3 @ grpDigits m 4 @ grpDigits m 5"
proof -
  have lits: "digits ''+'' = []" "digits '' '' = []" "digits ''('' = []" "digits '') '' = []"
      "digits ''-'' = []" "digits '' x'' = []"
    by (simp_all add: digits_def isDigit_def between_def code_def)
  have "digits (if present (grp m 1) then ''+'' @ interpolate (grp m 1) @ '' '' else [])
          = grpDigits m 1"
    by (simp add: digits_interpolate lits grpDigits_absent del: append.simps)
  moreover
  have "digits (if present (grp m 5) then '' x'' @ interpolate (grp m 5) else [])
          = grpDigits m 5"
    by (simp add: digits_interpolate lits grpDigits_absent del: append.simps)
  ultimately show ?thesis
    unfolding phoneFormatted_def
    by (simp only: digits_append digits_interpolate lits append_Nil append_Nil2 append_assoc)
qed

lemma grpDigits_toMatch:
  "grpDigits (toMatch s x) k = capDigits s [k] (snd (snd x))"
  by (simp add: grpDigits_def toMatch_def capDigits_def split: option.splits)

lemma phone_match_digits:
  assumes "m \<in> set (matchAll phone_pattern s)"
  shows "digits (phoneFormatted m) = digits (whole m)"
proof -
  from assms matchAllFrom_origin[of m phone_pattern s 0] obtain x where
      m: "m = toMatch s x" and le: "fst x \<le> length s"
      and y: "snd x \<in> set (matches phone_pattern s (fst x, Map.empty))"
    by (auto simp: matchAll_def)
  from matches_digits[OF y _ phone_pattern_digitsInGroups] le
  have "digits (substring s (fst x) (fst (snd x)))
          = capDigits s [1, 2, 3, 4, 5] (snd (snd x))"
    by (simp add: groupsOf_phone_pattern)
  also have "\<dots> = capDigits s [1] (snd (snd x)) @ capDigits s [2] (snd (snd x))
      @ capDigits s [3] (snd (snd x)) @ capDigits s [4] (snd (snd x))
      @ capDigits s [5] (snd (snd x))"
    by (simp add: capDigits_def)
  finally show ?thesis
    by (simp add: digits_phoneFormatted m grpDigits_toMatch) (simp add: toMatch_def)
qed

lemma collected_phone:
  assumes "x \<in> set (collected this s baseUrls)" and "tm_type x = Phone"
  shows "\<exists>m \<in> set (matchAll phone_pattern s). x = phoneMatch m"
  using assms
  by (auto simp: collected_def urlMatch_def hashtagMatch_def mentionMatch_def emailMatch_def
        linkMatch_def mkMatch_def Let_def split: if_splits)

text \<open>
  C5. Phone formatting is lossless over digits: in every phone record that
  \<open>findLinkableElements\<close> returns, the digits of the formatted \<open>value\<close> are the digits of
  the matched \<open>text\<close>, in the same order.
\<close>

theorem phone_value_keeps_digits:
  "list_all (\<lambda>m. digits (tm_value m) = digits (tm_text m))
     (filter (\<lambda>m. tm_type m = Phone) (findLinkableElements this s baseUrls))"
proof -
  have "digits (tm_value x) = digits (tm_text x)"
    if "x \<in> set (findLinkableElements this s baseUrls)" and "tm_type x = Phone" for x
  proof -
    from that have "x \<in> set (collected this s baseUrls)"
      by (simp add: findLinkableElements_def)
    from collected_phone[OF this that(2)] obtain m where
      "m \<in> set (matchAll phone_pattern s)" "x = phoneMatch m"
      by blast
    then show ?thesis by (simp add: phoneMatch_def mkMatch_def phone_match_digits)
  qed
  then show ?thesis by (simp add: list_all_iff)
qed

theorem phone_value_keeps_digits_witness:
  "map (\<lambda>m. (tm_text m, tm_value m))
     (filter (\<lambda>m. tm_type m = Phone)
        (findLinkableElements (TextParser_new None) ''+1 (555) 123-4567 x89'' None))
     = [(''+1 (555) 123-4567 x89'', ''+1 (555) 123-4567 x89'')]
   \<and> list_all (\<lambda>m. digits (tm_value m) = digits (tm_text m))
       (filter (\<lambda>m. tm_type m = Phone)
          (findLinkableElements (TextParser_new None) ''+1 (555) 123-4567 x89'' None))"
proof -
  have "map (\<lambda>m. (tm_text m, tm_value m))
          (filter (\<lambda>m. tm_type m = Phone)
             (findLinkableElements (TextParser_new None) ''+1 (555) 123-4567 x89'' None))
          = [(''+1 (555) 123-4567 x89'', ''+1 (555) 123-4567 x89'')]"
    by code_simp
  with phone_value_keeps_digits[of "TextParser_new None" "''+1 (555) 123-4567 x89''" None]
  show ?thesis by simp
qed

subsection \<open>The documented scenario\<close>

text \<open>
  C2. On the scenario text, with every recognizer enabled and no base URLs,
  \<open>findLinkableElements\<close> returns four records in the order phone, url, hashtag, mention,
  with the values and URLs of the scenario. The phone record does not lie at the span of
  \<open>1234567890\<close> (5 to 15): its \<open>text\<close> is \<open>" 1234567890"\<close> from 4 to 15, the space before
  the number included, because the separator class \<open>[-. (]*\<close> of the pattern takes it.
\<close>

theorem scenario_phone_starts_at_space:
  "findLinkableElements (TextParser_new None)
     ''Call 1234567890 or visit https://example.com! #support @sarah'' None
   = [\<lparr>tm_type = Phone, tm_text = '' 1234567890'', tm_value = ''(123) 456-7890'',
        tm_position = \<lparr>start = 4, finish = 15\<rparr>, tm_url = Some ''tel:1234567890''\<rparr>,
      \<lparr>tm_type = Url, tm_text = ''https://example.com'', tm_value = ''https://example.com'',
        tm_position = \<lparr>start = 25, finish = 44\<rparr>, tm_url = Some ''https://example.com''\<rparr>,
      \<lparr>tm_type = Hashtag, tm_text = ''#support'', tm_value = ''support'',
        tm_position = \<lparr>start = 46, finish = 54\<rparr>, tm_url = Some ''/tags/support''\<rparr>,
      \<lparr>tm_type = Mention, tm_text = ''@sarah'', tm_value = ''sarah'',
        tm_position = \<lparr>start = 55, finish = 61\<rparr>, tm_url = Some ''/users/sarah''\<rparr>]
   \<and> substring ''Call 1234567890 or visit https://example.com! #support @sarah'' 5 15
     = ''1234567890''"
  by code_simp

end
